theory Spec2Isabelle
  imports Complex_Main "HOL-Library.AList"
begin

section \<open>The similarity index of simserver.py\<close>

text \<open>
  The development embeds \<^verbatim>\<open>gensim/similarities/simserver.py\<close>: the functions
  \<^verbatim>\<open>merge_sim\<close>, the class \<^verbatim>\<open>SimIndex\<close> (\<^verbatim>\<open>index_documents\<close>,
  \<^verbatim>\<open>updateids\<close>, \<^verbatim>\<open>delete\<close>, \<^verbatim>\<open>sims2scores\<close>, \<^verbatim>\<open>sims_by_id\<close>,
  \<^verbatim>\<open>sims_by_doc\<close>) and \<^verbatim>\<open>SimServer.find_similar\<close>.

  Conventions of the embedding.
  \<^item> A Python \<^verbatim>\<open>dict\<close> is an association list with distinct keys; the order of the
    list is the iteration order of the dict. Lookup is \<open>map_of\<close>, \<^verbatim>\<open>d[k] = v\<close> is
    \<open>AList.update\<close>, \<^verbatim>\<open>del d[k]\<close> is \<open>AList.delete\<close> after the membership test,
    \<^verbatim>\<open>len(d)\<close> is \<open>length\<close>.
  \<^item> A similarity score (a Python float) is a \<open>real\<close>; rounding and NaN are not
    modelled.
  \<^item> An exception is a value of \<open>error\<close>. An operation that mutates the index
    returns an \<open>outcome\<close>: the state it leaves behind, together with the exception when
    it raised one. Python does not roll anything back, so neither does the model.
  \<^item> The vector type \<open>'v\<close>, the document type \<open>'d\<close> and the id type \<open>'id\<close> are
    parameters.
\<close>

subsection \<open>Errors and outcomes\<close>

datatype error = KeyError | AttributeError | AssertionError | ValueError

datatype 's outcome = Returned 's | Raised error 's

fun state_of :: "'s outcome \<Rightarrow> 's" where
  "state_of (Returned s) = s"
| "state_of (Raised e s) = s"

subsection \<open>Dictionaries\<close>

definition dict_getitem :: "('k \<times> 'a) list \<Rightarrow> 'k \<Rightarrow> error + 'a" where
  "dict_getitem d k = (case map_of d k of None \<Rightarrow> Inl KeyError | Some v \<Rightarrow> Inr v)"

definition dict_delitem :: "('k \<times> 'a) list \<Rightarrow> 'k \<Rightarrow> error + ('k \<times> 'a) list" where
  "dict_delitem d k =
     (case map_of d k of None \<Rightarrow> Inl KeyError | Some v \<Rightarrow> Inr (AList.delete k d))"

text \<open>\<^verbatim>\<open>dict(pairs)\<close>: the pairs are stored one after the other, a later pair
  overwriting an earlier one with the same key.\<close>

definition dict_of_pairs :: "('k \<times> 'a) list \<Rightarrow> ('k \<times> 'a) list" where
  "dict_of_pairs ps = fold (\<lambda>kv d. AList.update (fst kv) (snd kv) d) ps []"

subsection \<open>The external collaborators\<close>

text \<open>
  Modelled from the spec: \<^verbatim>\<open>gensim.similarities.Similarity\<close> (the VectorStore) is
  used by the source but is not part of it. The store is the list of the stored vectors in
  position order. Following the spec (4.1, and step 6 of 4.2: the norms of the stored vectors
  are accounted for by a normalisation step when they are added), \<open>add_documents\<close>
  appends each vector normalised; a query scores a vector against every stored vector, the
  query being normalised first unless the index is in unnormalised mode
  (\<^verbatim>\<open>normalize = False\<close>); \<open>similarity_by_id\<close> scores the stored vector of a position,
  unnormalised, against the whole store. \<open>iter_chunks\<close> replays the stored vectors in
  position order, so a loop over the chunks and over the rows of a chunk is a loop over the
  store. The normalisation \<open>unitvec\<close> and the raw score \<open>dot\<close> are parameters.
\<close>

record 'v similarity =
  unitvec :: "'v \<Rightarrow> 'v"
  dot :: "'v \<Rightarrow> 'v \<Rightarrow> real"

definition add_documents :: "'v similarity \<Rightarrow> 'v list \<Rightarrow> 'v list \<Rightarrow> 'v list" where
  "add_documents sm store vectors = store @ map (unitvec sm) vectors"

definition query_index :: "'v similarity \<Rightarrow> bool \<Rightarrow> 'v list \<Rightarrow> 'v \<Rightarrow> real list" where
  "query_index sm normalize_flag store query =
     map (dot sm (if normalize_flag then unitvec sm query else query)) store"

definition similarity_by_id :: "'v similarity \<Rightarrow> 'v list \<Rightarrow> nat \<Rightarrow> error + real list" where
  "similarity_by_id sm store docpos =
     (if docpos < length store then Inr (query_index sm False store (store ! docpos))
      else Inl ValueError)"

text \<open>
  \<^verbatim>\<open>SimModel.doc2vec\<close> turns a document into a vector through the trained
  transformations, which are not part of the source: the model is a function
  \<open>'d \<Rightarrow> 'v\<close>. \<^verbatim>\<open>docs2vecs\<close> is its batch version.
\<close>

definition docs2vecs :: "('d \<Rightarrow> 'v) \<Rightarrow> 'd list \<Rightarrow> 'v list" where
  "docs2vecs model docs = map model docs"

subsection \<open>merge_sim\<close>

definition TOP_SIMS :: nat where
  "TOP_SIMS = 100"

type_synonym 'id sims = "('id \<times> real) list"

text \<open>\<^verbatim>\<open>sorted(oldsims + newsims, key=lambda item: -item[1])[:SimIndex.TOP_SIMS]\<close>;
  Python's \<^verbatim>\<open>sorted\<close> is stable, and so is \<open>sort_key\<close>.\<close>

definition merge_sim :: "'id sims \<Rightarrow> 'id sims \<Rightarrow> 'id sims" where
  "merge_sim oldsims newsims =
     take TOP_SIMS (sort_key (\<lambda>item. - snd item) (oldsims @ newsims))"

subsection \<open>SimIndex\<close>

record ('id, 'v) simindex =
  id2pos :: "('id \<times> nat) list"
  pos2id :: "(nat \<times> 'id) list"
  id2sims :: "('id \<times> 'id sims) list"
  precompute :: bool
  idx_length :: nat
  qindex :: "'v list option"

text \<open>\<^verbatim>\<open>SimIndex.__init__\<close>; the attribute \<^verbatim>\<open>qindex\<close> does not exist yet
  (\<open>None\<close>), \<open>idx_length\<close> is the attribute \<^verbatim>\<open>length\<close>.\<close>

definition init :: "bool \<Rightarrow> ('id, 'v) simindex" where
  "init pre = \<lparr>id2pos = [], pos2id = [], id2sims = [], precompute = pre,
               idx_length = 0, qindex = None\<rparr>"

text \<open>
  \<^verbatim>\<open>numpy.argsort(sims)\<close>: the positions in ascending order of their score. Among
  positions of equal score the order is the sorting algorithm's; the model takes the stable
  one. No theorem below depends on how ties are broken except where it says so.
\<close>

definition argsort :: "real list \<Rightarrow> nat list" where
  "argsort sims = sort_key (\<lambda>pos. sims ! pos) [0..<length sims]"

fun sims2scores_loop ::
  "(nat \<times> 'id) list \<Rightarrow> real list \<Rightarrow> nat list \<Rightarrow> 'id sims \<Rightarrow> 'id sims" where
  "sims2scores_loop p2i sims [] result = result"
| "sims2scores_loop p2i sims (pos # rest) result =
     (case map_of p2i pos of
        None \<Rightarrow> sims2scores_loop p2i sims rest result
      | Some docid \<Rightarrow>
          (let result' = result @ [(docid, sims ! pos)]
           in if length result' = TOP_SIMS then result'
              else sims2scores_loop p2i sims rest result'))"

definition sims2scores :: "('id, 'v) simindex \<Rightarrow> real list \<Rightarrow> 'id sims" where
  "sims2scores s sims =
     (let sims' = map abs sims
      in sims2scores_loop (pos2id s) sims' (rev (argsort sims')) [])"

text \<open>\<^verbatim>\<open>updateids\<close>: one round of the loop, then the loop.\<close>

definition updateids_step :: "'id \<Rightarrow> ('id, 'v) simindex \<Rightarrow> ('id, 'v) simindex outcome" where
  "updateids_step docid s =
     (case (case map_of (id2pos s) docid of
              None \<Rightarrow> Inr (pos2id s)
            | Some p \<Rightarrow> dict_delitem (pos2id s) p) of
        Inl e \<Rightarrow> Raised e s
      | Inr p2i \<Rightarrow>
          Returned (s\<lparr>id2pos := AList.update docid (idx_length s) (id2pos s),
                      pos2id := AList.update (idx_length s) docid p2i,
                      idx_length := Suc (idx_length s)\<rparr>))"

fun updateids :: "'id list \<Rightarrow> ('id, 'v) simindex \<Rightarrow> ('id, 'v) simindex outcome" where
  "updateids [] s = Returned s"
| "updateids (docid # rest) s =
     (case updateids_step docid s of
        Raised e s' \<Rightarrow> Raised e s'
      | Returned s' \<Rightarrow> updateids rest s')"

text \<open>
  The first loop of \<^verbatim>\<open>index_documents\<close> (``updating old precomputed values''): \<open>chunk\<close>
  is what is left of the replay of the permanent store, \<open>pos\<close> the loop counter,
  \<open>tmpindex\<close> the vectors of the temporary index, which is in unnormalised mode.
\<close>

fun update_old ::
  "'v similarity \<Rightarrow> 'v list \<Rightarrow> 'v list \<Rightarrow> nat \<Rightarrow> ('id, 'v) simindex \<Rightarrow> ('id, 'v) simindex outcome" where
  "update_old sm tmpindex [] pos s = Returned s"
| "update_old sm tmpindex (vec # chunk) pos s =
     (case map_of (pos2id s) pos of
        None \<Rightarrow> Raised KeyError s
      | Some docid \<Rightarrow>
          (let sims = sims2scores s (query_index sm False tmpindex vec)
           in case map_of (id2sims s) docid of
                None \<Rightarrow> Raised KeyError s
              | Some oldsims \<Rightarrow>
                  update_old sm tmpindex chunk (Suc pos)
                    (s\<lparr>id2sims := AList.update docid (merge_sim oldsims sims) (id2sims s)\<rparr>)))"

text \<open>
  The last loop of \<^verbatim>\<open>index_documents\<close> (``precomputing values for the new documents''):
  the rows pair \<^verbatim>\<open>docids[pos]\<close> with the vector of the temporary index at \<open>pos\<close>; the
  permanent index is in unnormalised mode.
\<close>

fun precompute_new ::
  "'v similarity \<Rightarrow> 'v list \<Rightarrow> ('id \<times> 'v) list \<Rightarrow> ('id, 'v) simindex \<Rightarrow> ('id, 'v) simindex" where
  "precompute_new sm store [] s = s"
| "precompute_new sm store ((docid, vec) # rows) s =
     precompute_new sm store rows
       (s\<lparr>id2sims :=
            AList.update docid (sims2scores s (query_index sm False store vec)) (id2sims s)\<rparr>)"

text \<open>
  \<^verbatim>\<open>index_documents\<close>. \<open>fresh_docs\<close> is a dict, so its keys are distinct and
  \<^verbatim>\<open>fresh_docs[docid] for docid in docids\<close> is the list of its values.
\<close>

definition index_documents ::
  "'v similarity \<Rightarrow> ('id \<times> 'd) list \<Rightarrow> ('d \<Rightarrow> 'v) \<Rightarrow> ('id, 'v) simindex
     \<Rightarrow> ('id, 'v) simindex outcome" where
  "index_documents sm fresh_docs model s0 =
     (let s = (case qindex s0 of None \<Rightarrow> s0\<lparr>qindex := Some []\<rparr> | Some q \<Rightarrow> s0);
          store = (case qindex s0 of None \<Rightarrow> [] | Some q \<Rightarrow> q);
          docids = map fst fresh_docs;
          vectors = docs2vecs model (map snd fresh_docs)
      in if \<not> precompute s then
           updateids docids (s\<lparr>qindex := Some (add_documents sm store vectors)\<rparr>)
         else
           (let tmpindex = add_documents sm [] vectors
            in case update_old sm tmpindex store 0 s of
                 Raised e s1 \<Rightarrow> Raised e s1
               | Returned s1 \<Rightarrow>
                   (let store' = add_documents sm store tmpindex
                    in case updateids docids (s1\<lparr>qindex := Some store'\<rparr>) of
                         Raised e s2 \<Rightarrow> Raised e s2
                       | Returned s2 \<Rightarrow>
                           Returned (precompute_new sm store' (zip docids tmpindex) s2))))"

text \<open>\<^verbatim>\<open>delete\<close>: the loop over the ids, then the rebuild of \<open>pos2id\<close> and the
  assertion.\<close>

fun delete_ids :: "'id list \<Rightarrow> ('id, 'v) simindex \<Rightarrow> ('id, 'v) simindex outcome" where
  "delete_ids [] s = Returned s"
| "delete_ids (docid # rest) s =
     (case dict_delitem (id2pos s) docid of
        Inl e \<Rightarrow> Raised e s
      | Inr i2p \<Rightarrow> delete_ids rest (s\<lparr>id2pos := i2p\<rparr>))"

definition delete :: "'id list \<Rightarrow> ('id, 'v) simindex \<Rightarrow> ('id, 'v) simindex outcome" where
  "delete docids s =
     (case delete_ids docids s of
        Raised e s1 \<Rightarrow> Raised e s1
      | Returned s1 \<Rightarrow>
          (let s2 = s1\<lparr>pos2id := dict_of_pairs (map (\<lambda>kv. (snd kv, fst kv)) (id2pos s1))\<rparr>
           in if length (pos2id s2) = length (id2pos s2) then Returned s2
              else Raised AssertionError s2))"

text \<open>\<^verbatim>\<open>sims_by_id\<close> and \<^verbatim>\<open>sims_by_doc\<close>. Python evaluates \<^verbatim>\<open>self.qindex\<close>
  before the argument \<^verbatim>\<open>self.id2pos[docid]\<close>.\<close>

definition sims_by_id ::
  "'v similarity \<Rightarrow> ('id, 'v) simindex \<Rightarrow> 'id \<Rightarrow> error + 'id sims" where
  "sims_by_id sm s docid =
     (if precompute s then dict_getitem (id2sims s) docid
      else
        (case qindex s of
           None \<Rightarrow> Inl AttributeError
         | Some store \<Rightarrow>
             (case dict_getitem (id2pos s) docid of
                Inl e \<Rightarrow> Inl e
              | Inr pos \<Rightarrow>
                  (case similarity_by_id sm store pos of
                     Inl e \<Rightarrow> Inl e
                   | Inr sims \<Rightarrow> Inr (sims2scores s sims)))))"

definition sims_by_doc ::
  "'v similarity \<Rightarrow> ('id, 'v) simindex \<Rightarrow> 'd \<Rightarrow> ('d \<Rightarrow> 'v) \<Rightarrow> error + 'id sims" where
  "sims_by_doc sm s doc model =
     (let vec = model doc
      in case qindex s of
           None \<Rightarrow> Inl AttributeError
         | Some store \<Rightarrow> Inr (sims2scores s (query_index sm True store vec)))"

subsection \<open>SimServer.find_similar\<close>

text \<open>A query is a document id (a \<^verbatim>\<open>basestring\<close>) or a document.\<close>

datatype ('id, 'd) query = DocId 'id | Doc 'd

record ('id, 'd, 'v) simserver =
  simindex :: "('id, 'v) simindex option"
  simmodel :: "('d \<Rightarrow> 'v) option"

fun find_similar_loop :: "real \<Rightarrow> int \<Rightarrow> 'id sims \<Rightarrow> 'id sims \<Rightarrow> 'id sims" where
  "find_similar_loop min_score max_results [] result = result"
| "find_similar_loop min_score max_results ((docid, score) # sims) result =
     (if score < min_score \<or> (0 < max_results \<and> max_results \<le> int (length result))
      then result
      else find_similar_loop min_score max_results sims (result @ [(docid, score)]))"

definition find_similar ::
  "'v similarity \<Rightarrow> ('id, 'd, 'v) simserver \<Rightarrow> ('id, 'd) query \<Rightarrow> real \<Rightarrow> int
     \<Rightarrow> error + 'id sims" where
  "find_similar sm srv doc min_score max_results =
     (case simindex srv of
        None \<Rightarrow> Inl AttributeError
      | Some idx \<Rightarrow>
          (case (case doc of
                   DocId docid \<Rightarrow> sims_by_id sm idx docid
                 | Doc d \<Rightarrow>
                     (case simmodel srv of
                        None \<Rightarrow> Inl AttributeError
                      | Some model \<Rightarrow> sims_by_doc sm idx d model)) of
             Inl e \<Rightarrow> Inl e
           | Inr sims \<Rightarrow> Inr (find_similar_loop min_score max_results sims [])))"

section \<open>Predicates of the statements\<close>

subsection \<open>The identity map\<close>

text \<open>
  \<open>inverse_maps\<close> is the property of the two directions as the specification words it:
  \<^verbatim>\<open>pos2id[id2pos[id]] == id\<close> for every mapped id, and
  \<^verbatim>\<open>len(pos2id) == len(id2pos)\<close>. \<open>idmap_sub\<close> is what every state the code can
  reach satisfies, also after a failed call: both dicts have distinct keys, every pair of
  \<open>id2pos\<close> has its mirror in \<open>pos2id\<close>, and every position in use is below the
  counter \<open>idx_length\<close>. \<open>idmap_inv\<close> adds the equal sizes. \<open>same_idmap\<close> relates
  two states with the same identity map, \<open>store_of\<close> reads the vector store,
  \<open>stored_batch\<close> is the list of vectors that indexing a batch appends to it (the
  temporary index normalises them once more on the precompute path), and \<open>idmap_step\<close>
  describes the identity map after a batch of ids has been installed.
\<close>

definition idmap_sub :: "('id, 'v) simindex \<Rightarrow> bool" where
  "idmap_sub s \<longleftrightarrow>
     distinct (map fst (id2pos s)) \<and> distinct (map fst (pos2id s)) \<and>
     (\<forall>d p. map_of (id2pos s) d = Some p \<longrightarrow> map_of (pos2id s) p = Some d) \<and>
     (\<forall>p d. map_of (pos2id s) p = Some d \<longrightarrow> p < idx_length s)"

definition inverse_maps :: "('id, 'v) simindex \<Rightarrow> bool" where
  "inverse_maps s \<longleftrightarrow>
     (\<forall>d p. map_of (id2pos s) d = Some p \<longrightarrow> map_of (pos2id s) p = Some d) \<and>
     length (pos2id s) = length (id2pos s)"

definition idmap_inv :: "('id, 'v) simindex \<Rightarrow> bool" where
  "idmap_inv s \<longleftrightarrow> idmap_sub s \<and> length (pos2id s) = length (id2pos s)"

definition same_idmap :: "('id, 'v) simindex \<Rightarrow> ('id, 'v) simindex \<Rightarrow> bool" where
  "same_idmap s s' \<longleftrightarrow>
     id2pos s' = id2pos s \<and> pos2id s' = pos2id s \<and> idx_length s' = idx_length s \<and>
     precompute s' = precompute s"

definition store_of :: "('id, 'v) simindex \<Rightarrow> 'v list" where
  "store_of s = (case qindex s of None \<Rightarrow> [] | Some q \<Rightarrow> q)"

definition idmap_step :: "'id list \<Rightarrow> ('id, 'v) simindex \<Rightarrow> ('id, 'v) simindex \<Rightarrow> bool" where
  "idmap_step docids s s' \<longleftrightarrow>
     idmap_sub s' \<and> idx_length s' = idx_length s + length docids \<and>
     precompute s' = precompute s \<and>
     (length (pos2id s) = length (id2pos s) \<longrightarrow> length (pos2id s') = length (id2pos s')) \<and>
     (\<forall>d. d \<notin> set docids \<longrightarrow> map_of (id2pos s') d = map_of (id2pos s) d) \<and>
     (\<forall>p. p < idx_length s \<longrightarrow> map_of (pos2id s') p =
          (if \<exists>d\<in>set docids. map_of (id2pos s) d = Some p then None
           else map_of (pos2id s) p)) \<and>
     (distinct docids \<longrightarrow>
        (\<forall>i<length docids. map_of (id2pos s') (docids ! i) = Some (idx_length s + i)))"

definition stored_batch :: "'v similarity \<Rightarrow> ('id \<times> 'd) list \<Rightarrow> ('d \<Rightarrow> 'v) \<Rightarrow> bool \<Rightarrow> 'v list" where
  "stored_batch sm fresh_docs model pre =
     (if pre then map (\<lambda>kv. unitvec sm (unitvec sm (model (snd kv)))) fresh_docs
      else map (\<lambda>kv. unitvec sm (model (snd kv))) fresh_docs)"

subsection \<open>Ranked lists\<close>

text \<open>
  \<open>sorted_desc\<close>: the scores of a list do not increase along it. \<open>live_pair\<close> is what
  the loop of \<^verbatim>\<open>sims2scores\<close> appends for a position, if anything. \<open>one_position\<close>: no
  id is the value of two positions of a \<open>pos2id\<close> dict.
\<close>

definition sorted_desc :: "'id sims \<Rightarrow> bool" where
  "sorted_desc sims = sorted_wrt (\<lambda>x y. snd y \<le> snd x) sims"

definition live_pair :: "(nat \<times> 'id) list \<Rightarrow> real list \<Rightarrow> nat \<Rightarrow> ('id \<times> real) option" where
  "live_pair p2i sims pos = map_option (\<lambda>docid. (docid, sims ! pos)) (map_of p2i pos)"

definition one_position :: "(nat \<times> 'id) list \<Rightarrow> bool" where
  "one_position p2i \<longleftrightarrow>
     (\<forall>p q d. map_of p2i p = Some d \<longrightarrow> map_of p2i q = Some d \<longrightarrow> p = q)"

text \<open>
  \<open>strictly_desc\<close>: the scores of a list decrease strictly along it. \<open>cache_ranked\<close>:
  every stored entry of \<open>id2sims\<close> has at most \<open>TOP_SIMS\<close> pairs and is sorted by
  descending score.
\<close>

definition strictly_desc :: "'id sims \<Rightarrow> bool" where
  "strictly_desc sims = sorted_wrt (\<lambda>x y. snd y < snd x) sims"

definition cache_ranked :: "('id, 'v) simindex \<Rightarrow> bool" where
  "cache_ranked s \<longleftrightarrow>
     (\<forall>d entry. map_of (id2sims s) d = Some entry \<longrightarrow>
        length entry \<le> TOP_SIMS \<and> sorted_desc entry)"

subsection \<open>The result of find_similar, as the specification words it\<close>

text \<open>
  \<open>underlying\<close> is the ranked list a query is answered from: that of \<^verbatim>\<open>sims_by_id\<close>
  for an id, that of \<^verbatim>\<open>sims_by_doc\<close> for a document. \<open>restrict_results\<close> keeps the
  pairs whose score is at least \<open>min_score\<close> and then at most \<open>max_results\<close> of them,
  all of them when \<open>max_results\<close> is not positive.
\<close>

definition underlying ::
  "'v similarity \<Rightarrow> ('id, 'v) simindex \<Rightarrow> ('d \<Rightarrow> 'v) option \<Rightarrow> ('id, 'd) query
     \<Rightarrow> error + 'id sims" where
  "underlying sm idx model doc =
     (case doc of
        DocId docid \<Rightarrow> sims_by_id sm idx docid
      | Doc d \<Rightarrow> (case model of None \<Rightarrow> Inl AttributeError | Some m \<Rightarrow> sims_by_doc sm idx d m))"

definition restrict_results :: "real \<Rightarrow> int \<Rightarrow> 'id sims \<Rightarrow> 'id sims" where
  "restrict_results min_score max_results sims =
     (let kept = filter (\<lambda>item. min_score \<le> snd item) sims
      in if max_results \<le> 0 then kept else take (nat max_results) kept)"

subsection \<open>A concrete scorer for the examples\<close>

text \<open>
  The examples below run the index on vectors of unit length given by their coordinates:
  the score is the dot product, normalising a unit vector leaves it as it is, and a document
  is given by its vector.
\<close>

definition plain_dot :: "real list \<Rightarrow> real list \<Rightarrow> real" where
  "plain_dot q x = sum_list (map2 (*) q x)"

definition unit_similarity :: "real list similarity" where
  "unit_similarity = \<lparr>unitvec = (\<lambda>v. v), dot = plain_dot\<rparr>"

definition vec_model :: "real list \<Rightarrow> real list" where
  "vec_model d = d"

text \<open>
  The index with precomputation after the batch \<open>a \<mapsto> (1, 0)\<close>, \<open>b \<mapsto> (3/5, 4/5)\<close>
  has been indexed into the empty index, and the same index after \<open>a\<close> (after \<open>b\<close>)
  has then been deleted.
\<close>

definition batch_ab :: "(string \<times> real list) list" where
  "batch_ab = [(''a'', [1, 0]), (''b'', [3 / 5, 4 / 5])]"

definition index_ab :: "(string, real list) simindex" where
  "index_ab =
     \<lparr>id2pos = [(''a'', 0), (''b'', 1)], pos2id = [(0, ''a''), (1, ''b'')],
      id2sims = [(''a'', [(''a'', 1), (''b'', 3 / 5)]), (''b'', [(''b'', 1), (''a'', 3 / 5)])],
      precompute = True, idx_length = 2, qindex = Some [[1, 0], [3 / 5, 4 / 5]]\<rparr>"

definition index_ab_less_a :: "(string, real list) simindex" where
  "index_ab_less_a = index_ab\<lparr>id2pos := [(''b'', 1)], pos2id := [(1, ''b'')]\<rparr>"



text \<open>The batch of two documents with the same vector, and the index with precomputation
  that holds them.\<close>

definition batch_twins :: "(string \<times> real list) list" where
  "batch_twins = [(''a'', [1, 0]), (''b'', [1, 0])]"

definition index_twins :: "(string, real list) simindex" where
  "index_twins = state_of (index_documents unit_similarity batch_twins vec_model (init True))"

text \<open>The index with precomputation that holds the single document \<open>a \<mapsto> (1, 0)\<close>.\<close>

definition index_a :: "(string, real list) simindex" where
  "index_a =
     \<lparr>id2pos = [(''a'', 0)], pos2id = [(0, ''a'')], id2sims = [(''a'', [(''a'', 1)])],
      precompute = True, idx_length = 1, qindex = Some [[1, 0]]\<rparr>"



section \<open>The identity map: updateids, delete, index_documents\<close>

lemma length_update:
  "length (AList.update k v al) = (if k \<in> fst ` set al then length al else Suc (length al))"
  by (induction al) auto

lemma length_delete:
  "distinct (map fst al) \<Longrightarrow> k \<in> fst ` set al \<Longrightarrow> Suc (length (AList.delete k al)) = length al"
  by (induction al) (auto simp: rev_image_eqI)

lemma map_of_Some_keys: "map_of al k = Some v \<Longrightarrow> k \<in> fst ` set al"
  by (metis map_of_eq_None_iff option.distinct(1))

lemma updateids_step_sub:
  assumes "idmap_sub s"
  shows "\<exists>s'. updateids_step docid s = Returned s' \<and> idmap_sub s' \<and>
           idx_length s' = Suc (idx_length s) \<and>
           map_of (id2pos s') = (map_of (id2pos s))(docid \<mapsto> idx_length s) \<and>
           map_of (pos2id s') = (case map_of (id2pos s) docid of
                None \<Rightarrow> (map_of (pos2id s))(idx_length s \<mapsto> docid)
              | Some p \<Rightarrow> ((map_of (pos2id s))(p := None))(idx_length s \<mapsto> docid)) \<and>
           id2sims s' = id2sims s \<and> qindex s' = qindex s \<and> precompute s' = precompute s \<and>
           (length (pos2id s) = length (id2pos s) \<longrightarrow> length (pos2id s') = length (id2pos s'))"
proof (cases "map_of (id2pos s) docid")
  case None
  then have nk: "docid \<notin> fst ` set (id2pos s)" by (simp add: map_of_eq_None_iff)
  have fresh: "idx_length s \<notin> fst ` set (pos2id s)"
    using assms unfolding idmap_sub_def
    by (metis less_irrefl map_of_eq_None_iff not_None_eq)
  show ?thesis
    using None assms nk fresh
    unfolding updateids_step_def idmap_sub_def
    apply (simp add: AList.distinct_update AList.update_conv' length_update)
    apply (intro conjI allI impI)
    apply (auto split: if_splits simp: less_SucI)
    apply (metis less_irrefl)
    done
next
  case (Some p)
  then have pk: "map_of (pos2id s) p = Some docid"
    using assms unfolding idmap_sub_def by blast
  then have pin: "p \<in> fst ` set (pos2id s)" by (rule map_of_Some_keys)
  have din: "docid \<in> fst ` set (id2pos s)" using Some by (rule map_of_Some_keys)
  have plt: "p < idx_length s" using assms pk unfolding idmap_sub_def by blast
  have fresh: "idx_length s \<notin> fst ` set (AList.delete p (pos2id s))"
    using assms unfolding idmap_sub_def
    by (metis AList.dom_delete_subset less_irrefl map_of_eq_None_iff not_None_eq subsetD)
  have len: "Suc (length (AList.delete p (pos2id s))) = length (pos2id s)"
    using assms pin unfolding idmap_sub_def by (simp add: length_delete)
  show ?thesis
    using Some assms pk din fresh len plt
    unfolding updateids_step_def idmap_sub_def dict_delitem_def
    apply (simp add: AList.distinct_update AList.distinct_delete AList.update_conv' AList.delete_conv' length_update)
    apply (intro conjI allI impI)
    apply (auto split: if_splits simp: less_SucI)
    apply (metis eq_key_imp_eq_value less_irrefl)+
    done
qed

lemma updateids_sub:
  assumes "idmap_sub s"
  shows "\<exists>s'. updateids docids s = Returned s' \<and> idmap_sub s' \<and>
           idx_length s' = idx_length s + length docids \<and>
           id2sims s' = id2sims s \<and> qindex s' = qindex s \<and> precompute s' = precompute s \<and>
           (length (pos2id s) = length (id2pos s) \<longrightarrow> length (pos2id s') = length (id2pos s'))"
  using assms
proof (induction docids arbitrary: s)
  case Nil
  then show ?case by simp
next
  case (Cons docid rest)
  from updateids_step_sub [OF Cons.prems, of docid]
  obtain s1 where s1: "updateids_step docid s = Returned s1" "idmap_sub s1"
      "idx_length s1 = Suc (idx_length s)" "id2sims s1 = id2sims s" "qindex s1 = qindex s"
      "precompute s1 = precompute s"
      "length (pos2id s) = length (id2pos s) \<longrightarrow> length (pos2id s1) = length (id2pos s1)"
    by blast
  from Cons.IH [OF s1(2)] obtain s' where s': "updateids rest s1 = Returned s'" "idmap_sub s'"
      "idx_length s' = idx_length s1 + length rest" "id2sims s' = id2sims s1"
      "qindex s' = qindex s1" "precompute s' = precompute s1"
      "length (pos2id s1) = length (id2pos s1) \<longrightarrow> length (pos2id s') = length (id2pos s')"
    by blast
  show ?case using s1 s' by simp
qed

lemma updateids_maps:
  assumes "idmap_sub s" and "updateids docids s = Returned s'"
  shows "(\<forall>d. d \<notin> set docids \<longrightarrow> map_of (id2pos s') d = map_of (id2pos s) d) \<and>
         (\<forall>p. p < idx_length s \<longrightarrow> map_of (pos2id s') p =
              (if \<exists>d\<in>set docids. map_of (id2pos s) d = Some p then None
               else map_of (pos2id s) p)) \<and>
         (distinct docids \<longrightarrow>
            (\<forall>i<length docids. map_of (id2pos s') (docids ! i) = Some (idx_length s + i)))"
  using assms
proof (induction docids arbitrary: s)
  case Nil
  then show ?case by simp
next
  case (Cons docid rest)
  from updateids_step_sub [OF Cons.prems(1), of docid]
  obtain s1 where s1: "updateids_step docid s = Returned s1" "idmap_sub s1"
      "idx_length s1 = Suc (idx_length s)"
      "map_of (id2pos s1) = (map_of (id2pos s))(docid \<mapsto> idx_length s)"
      "map_of (pos2id s1) = (case map_of (id2pos s) docid of
                None \<Rightarrow> (map_of (pos2id s))(idx_length s \<mapsto> docid)
              | Some p \<Rightarrow> ((map_of (pos2id s))(p := None))(idx_length s \<mapsto> docid))"
    by blast
  then have run: "updateids rest s1 = Returned s'" using Cons.prems(2) by simp
  note IH = Cons.IH [OF s1(2) run]
  have a: "\<forall>d. d \<notin> set (docid # rest) \<longrightarrow> map_of (id2pos s') d = map_of (id2pos s) d"
    using IH s1(4) by simp
  have b: "map_of (pos2id s') p =
              (if \<exists>d\<in>set (docid # rest). map_of (id2pos s) d = Some p then None
               else map_of (pos2id s) p)" if "p < idx_length s" for p
  proof -
    have p1: "p < idx_length s1" using that s1(3) by simp
    have "map_of (pos2id s') p =
              (if \<exists>d\<in>set rest. map_of (id2pos s1) d = Some p then None
               else map_of (pos2id s1) p)"
      using IH p1 by blast
    moreover have "(\<exists>d\<in>set rest. map_of (id2pos s1) d = Some p) \<longleftrightarrow>
                   (\<exists>d\<in>set rest. d \<noteq> docid \<and> map_of (id2pos s) d = Some p)"
      using that s1(4) by auto
    moreover have "map_of (pos2id s1) p =
        (if map_of (id2pos s) docid = Some p then None else map_of (pos2id s) p)"
      using that s1(5) by (auto split: option.splits)
    ultimately show ?thesis by auto
  qed
  have c: "map_of (id2pos s') ((docid # rest) ! i) = Some (idx_length s + i)"
    if "distinct (docid # rest)" "i < length (docid # rest)" for i
  proof (cases i)
    case 0
    have "docid \<notin> set rest" using that(1) by simp
    then have "map_of (id2pos s') docid = map_of (id2pos s1) docid" using IH by blast
    then show ?thesis using 0 s1(4) by simp
  next
    case (Suc j)
    then have "j < length rest" using that(2) by simp
    moreover have "distinct rest" using that(1) by simp
    ultimately have "map_of (id2pos s') (rest ! j) = Some (idx_length s1 + j)" using IH by blast
    then show ?thesis using Suc s1(3) by simp
  qed
  show ?case using a b c by blast
qed

lemma map_of_filter_keys:
  "map_of (filter (\<lambda>kv. fst kv \<notin> A) al) k = (if k \<in> A then None else map_of al k)"
  by (induction al) auto

lemma delete_as_filter: "AList.delete k al = filter (\<lambda>kv. fst kv \<notin> {k}) al"
  by (induction al) auto

lemma delete_ids_Returned:
  "delete_ids docids s = Returned s' \<Longrightarrow>
     s' = s\<lparr>id2pos := filter (\<lambda>kv. fst kv \<notin> set docids) (id2pos s)\<rparr>"
proof (induction docids arbitrary: s)
  case Nil
  then show ?case by simp
next
  case (Cons d rest)
  from Cons.prems obtain v where v: "map_of (id2pos s) d = Some v"
    by (auto simp: dict_delitem_def split: option.splits)
  then have "delete_ids rest (s\<lparr>id2pos := AList.delete d (id2pos s)\<rparr>) = Returned s'"
    using Cons.prems by (simp add: dict_delitem_def)
  from Cons.IH [OF this] show ?case
    by (simp add: delete_as_filter conj_commute)
qed

lemma delete_ids_Raised_state:
  "delete_ids docids s = Raised e s' \<Longrightarrow>
     e = KeyError \<and> s' = s\<lparr>id2pos := id2pos s'\<rparr>"
proof (induction docids arbitrary: s)
  case Nil
  then show ?case by simp
next
  case (Cons d rest)
  show ?case
  proof (cases "map_of (id2pos s) d")
    case None
    then show ?thesis using Cons.prems by (simp add: dict_delitem_def)
  next
    case (Some v)
    then have "delete_ids rest (s\<lparr>id2pos := AList.delete d (id2pos s)\<rparr>) = Raised e s'"
      using Cons.prems by (simp add: dict_delitem_def)
    from Cons.IH [OF this] show ?thesis by auto
  qed
qed

lemma delete_ids_missing:
  assumes "distinct pre" and "set pre \<subseteq> fst ` set (id2pos s)"
    and "missing \<notin> fst ` set (id2pos s)"
  shows "delete_ids (pre @ missing # post) s =
           Raised KeyError (s\<lparr>id2pos := filter (\<lambda>kv. fst kv \<notin> set pre) (id2pos s)\<rparr>)"
  using assms
proof (induction pre arbitrary: s)
  case Nil
  then have "map_of (id2pos s) missing = None" by (simp add: map_of_eq_None_iff)
  then show ?case by (simp add: dict_delitem_def)
next
  case (Cons d rest)
  let ?s1 = "s\<lparr>id2pos := AList.delete d (id2pos s)\<rparr>"
  from Cons.prems(2) have "d \<in> fst ` set (id2pos s)" by simp
  then obtain v where v: "map_of (id2pos s) d = Some v"
    by (metis map_of_eq_None_iff not_None_eq)
  have keys: "fst ` set (id2pos ?s1) = fst ` set (id2pos s) - {d}"
    by (auto simp: delete_as_filter)
  have r: "set rest \<subseteq> fst ` set (id2pos ?s1)"
    using Cons.prems(1,2) keys by auto
  have m: "missing \<notin> fst ` set (id2pos ?s1)"
    using Cons.prems(3) keys by auto
  have dr: "distinct rest" using Cons.prems(1) by simp
  have "delete_ids (rest @ missing # post) ?s1 =
      Raised KeyError (?s1\<lparr>id2pos := filter (\<lambda>kv. fst kv \<notin> set rest) (id2pos ?s1)\<rparr>)"
    by (rule Cons.IH [OF dr r m])
  then show ?case using v
    by (simp add: dict_delitem_def delete_as_filter conj_commute)
qed

lemma fold_update_keys:
  "fst ` set (fold (\<lambda>kv d. AList.update (fst kv) (snd kv) d) ps acc) = fst ` set ps \<union> fst ` set acc"
  by (induction ps arbitrary: acc) (auto simp: AList.dom_update)

lemma fold_update_distinct:
  "distinct (map fst acc) \<Longrightarrow>
     distinct (map fst (fold (\<lambda>kv d. AList.update (fst kv) (snd kv) d) ps acc))"
  by (induction ps arbitrary: acc) (auto simp: AList.distinct_update)

lemma fold_update_map_of:
  "map_of (fold (\<lambda>kv d. AList.update (fst kv) (snd kv) d) ps acc) = map_of acc ++ map_of (rev ps)"
  by (induction ps arbitrary: acc) (auto simp: AList.update_conv' fun_eq_iff map_add_def split: option.splits)

lemma map_of_rev_distinct: "distinct (map fst xs) \<Longrightarrow> map_of (rev xs) = map_of xs"
  by (rule map_of_inject_set [THEN iffD2]) (simp_all add: distinct_rev rev_map [symmetric])

lemma dict_of_pairs_distinct: "distinct (map fst (dict_of_pairs ps))"
  by (simp add: dict_of_pairs_def fold_update_distinct)

lemma dict_of_pairs_keys: "fst ` set (dict_of_pairs ps) = fst ` set ps"
  by (simp add: dict_of_pairs_def fold_update_keys)

lemma dict_of_pairs_length: "length (dict_of_pairs ps) = card (fst ` set ps)"
proof -
  have "length (dict_of_pairs ps) = length (map fst (dict_of_pairs ps))" by simp
  also have "\<dots> = card (set (map fst (dict_of_pairs ps)))"
    using dict_of_pairs_distinct [of ps] by (simp only: distinct_card)
  also have "\<dots> = card (fst ` set ps)" by (simp add: dict_of_pairs_keys)
  finally show ?thesis .
qed

lemma dict_of_pairs_full:
  assumes "length (dict_of_pairs ps) = length ps"
  shows "distinct (map fst ps)" and "map_of (dict_of_pairs ps) = map_of ps"
proof -
  have "card (set (map fst ps)) = length (map fst ps)"
    using assms by (simp add: dict_of_pairs_length)
  then show d: "distinct (map fst ps)" by (rule card_distinct)
  have "map_of (dict_of_pairs ps) = map_of (rev ps)"
    by (simp add: dict_of_pairs_def fold_update_map_of)
  also have "\<dots> = map_of ps" using d by (simp add: map_of_rev_distinct)
  finally show "map_of (dict_of_pairs ps) = map_of ps" .
qed

lemma same_idmap_refl: "same_idmap s s"
  by (simp add: same_idmap_def)

lemma same_idmap_trans: "same_idmap s s1 \<Longrightarrow> same_idmap s1 s2 \<Longrightarrow> same_idmap s s2"
  by (simp add: same_idmap_def)

lemma same_idmap_sub: "same_idmap s s' \<Longrightarrow> idmap_sub s \<Longrightarrow> idmap_sub s'"
  by (simp add: same_idmap_def idmap_sub_def)

lemma update_old_frame:
  "same_idmap s (state_of (update_old sm tmpindex chunk pos s)) \<and>
   qindex (state_of (update_old sm tmpindex chunk pos s)) = qindex s"
proof (induction chunk arbitrary: pos s)
  case Nil
  then show ?case by (simp add: same_idmap_def)
next
  case (Cons vec chunk)
  show ?case
  proof (cases "map_of (pos2id s) pos")
    case None
    then show ?thesis by (simp add: same_idmap_def)
  next
    case (Some docid)
    show ?thesis
    proof (cases "map_of (id2sims s) docid")
      case None
      then show ?thesis using Some by (simp add: same_idmap_def Let_def)
    next
      case (Some oldsims)
      let ?s1 = "s\<lparr>id2sims := AList.update docid
                    (merge_sim oldsims (sims2scores s (query_index sm False tmpindex vec)))
                    (id2sims s)\<rparr>"
      have "update_old sm tmpindex (vec # chunk) pos s = update_old sm tmpindex chunk (Suc pos) ?s1"
        using \<open>map_of (pos2id s) pos = Some docid\<close> Some by (simp add: Let_def)
      moreover have "same_idmap s ?s1" "qindex ?s1 = qindex s" by (simp_all add: same_idmap_def)
      ultimately show ?thesis
        using Cons.IH [of ?s1 "Suc pos"] by (auto intro: same_idmap_trans)
    qed
  qed
qed

lemma update_old_error:
  "update_old sm tmpindex chunk pos s = Raised e s' \<Longrightarrow> e = KeyError"
proof (induction chunk arbitrary: pos s)
  case Nil
  then show ?case by simp
next
  case (Cons vec chunk)
  then show ?case
    by (auto simp: Let_def split: option.splits)
qed

lemma precompute_new_frame:
  "same_idmap s (precompute_new sm store rows s) \<and>
   qindex (precompute_new sm store rows s) = qindex s"
proof (induction rows arbitrary: s)
  case Nil
  then show ?case by (simp add: same_idmap_def)
next
  case (Cons row rows)
  obtain docid vec where row: "row = (docid, vec)" by (cases row)
  let ?s1 = "s\<lparr>id2sims := AList.update docid
                 (sims2scores s (query_index sm False store vec)) (id2sims s)\<rparr>"
  have "same_idmap s ?s1" "qindex ?s1 = qindex s" by (simp_all add: same_idmap_def)
  then show ?case using Cons.IH [of ?s1] row by (auto intro: same_idmap_trans)
qed

lemma updateids_idmap_step:
  assumes "idmap_sub s"
  shows "\<exists>s'. updateids docids s = Returned s' \<and> idmap_step docids s s' \<and>
           id2sims s' = id2sims s \<and> qindex s' = qindex s"
proof -
  from updateids_sub [OF assms, of docids] obtain s' where
    s': "updateids docids s = Returned s'" "idmap_sub s'"
      "idx_length s' = idx_length s + length docids" "id2sims s' = id2sims s"
      "qindex s' = qindex s" "precompute s' = precompute s"
      "length (pos2id s) = length (id2pos s) \<longrightarrow> length (pos2id s') = length (id2pos s')"
    by blast
  from updateids_maps [OF assms s'(1)] s' show ?thesis
    unfolding idmap_step_def by blast
qed

lemma idmap_step_cong:
  assumes "same_idmap s0 s" and "same_idmap s' s''" and "idmap_step docids s s'"
  shows "idmap_step docids s0 s''"
proof -
  have a: "id2pos s = id2pos s0" "pos2id s = pos2id s0" "idx_length s = idx_length s0"
    "precompute s = precompute s0"
    using assms(1) by (simp_all add: same_idmap_def)
  have b: "id2pos s'' = id2pos s'" "pos2id s'' = pos2id s'" "idx_length s'' = idx_length s'"
    "precompute s'' = precompute s'"
    using assms(2) by (simp_all add: same_idmap_def)
  show ?thesis
    using assms(3) unfolding idmap_step_def idmap_sub_def a b .
qed

lemma index_documents_outcome:
  assumes "idmap_sub s"
  shows "(\<exists>s'. index_documents sm fresh_docs model s = Returned s' \<and>
               idmap_step (map fst fresh_docs) s s' \<and>
               qindex s' = Some (store_of s @ stored_batch sm fresh_docs model (precompute s))) \<or>
         (\<exists>s1. index_documents sm fresh_docs model s = Raised KeyError s1 \<and> precompute s \<and>
               same_idmap s s1 \<and> qindex s1 = qindex s \<and> qindex s \<noteq> None)"
proof -
  let ?docids = "map fst fresh_docs"
  let ?sq = "case qindex s of None \<Rightarrow> s\<lparr>qindex := Some []\<rparr> | Some q \<Rightarrow> s"
  let ?store = "store_of s"
  let ?vectors = "docs2vecs model (map snd fresh_docs)"
  have sq: "same_idmap s ?sq" "qindex ?sq = Some ?store"
    by (simp_all add: same_idmap_def store_of_def split: option.splits)
  show ?thesis
  proof (cases "precompute s")
    case False
    let ?sa = "?sq\<lparr>qindex := Some (add_documents sm ?store ?vectors)\<rparr>"
    have sa: "same_idmap s ?sa"
      using sq(1) by (simp add: same_idmap_def)
    then have "idmap_sub ?sa" using assms by (rule same_idmap_sub)
    from updateids_idmap_step [OF this, of ?docids] obtain s' where
      s': "updateids ?docids ?sa = Returned s'" "idmap_step ?docids ?sa s'" "qindex s' = qindex ?sa"
      by blast
    have run: "index_documents sm fresh_docs model s = Returned s'"
      using False s'(1) sq(1)
      by (simp add: index_documents_def Let_def store_of_def same_idmap_def)
    have "idmap_step ?docids s s'"
      using sa same_idmap_refl s'(2) by (rule idmap_step_cong)
    moreover have "qindex s' = Some (?store @ stored_batch sm fresh_docs model (precompute s))"
      using s'(3) False
      by (simp add: add_documents_def docs2vecs_def stored_batch_def comp_def)
    ultimately show ?thesis using run by blast
  next
    case True
    let ?tmp = "add_documents sm [] ?vectors"
    let ?r = "update_old sm ?tmp ?store 0 ?sq"
    have pre: "precompute ?sq" using True sq(1) by (simp add: same_idmap_def)
    have fr: "same_idmap ?sq (state_of ?r)" "qindex (state_of ?r) = qindex ?sq"
      using update_old_frame [of ?sq sm ?tmp ?store 0] by simp_all
    show ?thesis
    proof (cases ?r)
      case (Raised e s1)
      then have e: "e = KeyError" by (rule update_old_error)
      have s1: "same_idmap s s1" "qindex s1 = Some ?store"
        using fr Raised sq by (auto intro: same_idmap_trans)
      have "qindex s \<noteq> None"
      proof
        assume "qindex s = None"
        then have "?r = Returned ?sq" by (simp add: store_of_def)
        then show False using Raised by simp
      qed
      then have q: "qindex s1 = qindex s" using s1(2) by (auto simp: store_of_def)
      have "index_documents sm fresh_docs model s = Raised KeyError s1"
        using pre Raised e
        by (simp add: index_documents_def Let_def store_of_def)
      then show ?thesis using True s1(1) q \<open>qindex s \<noteq> None\<close> by blast
    next
      case (Returned s1)
      let ?store' = "add_documents sm ?store ?tmp"
      let ?sc = "s1\<lparr>qindex := Some ?store'\<rparr>"
      have s1: "same_idmap s s1"
        using fr Returned sq by (auto intro: same_idmap_trans)
      then have sc: "same_idmap s ?sc" by (simp add: same_idmap_def)
      then have "idmap_sub ?sc" using assms by (rule same_idmap_sub)
      from updateids_idmap_step [OF this, of ?docids] obtain u where
        u: "updateids ?docids ?sc = Returned u" "idmap_step ?docids ?sc u" "qindex u = qindex ?sc"
        by blast
      let ?s' = "precompute_new sm ?store' (zip ?docids ?tmp) u"
      have fr': "same_idmap u ?s'" "qindex ?s' = qindex u"
        using precompute_new_frame [of u sm ?store' "zip ?docids ?tmp"] by simp_all
      have run: "index_documents sm fresh_docs model s = Returned ?s'"
        using pre Returned u(1)
        by (simp add: index_documents_def Let_def store_of_def)
      have "idmap_step ?docids s ?s'"
        using sc fr'(1) u(2) by (rule idmap_step_cong)
      moreover have "qindex ?s' = Some (?store @ stored_batch sm fresh_docs model (precompute s))"
        using fr'(2) u(3) True
        by (simp add: add_documents_def docs2vecs_def stored_batch_def comp_def)
      ultimately show ?thesis using run by blast
    qed
  qed
qed

lemma delete_Returned:
  assumes "delete docids s = Returned s'"
  shows "id2pos s' = filter (\<lambda>kv. fst kv \<notin> set docids) (id2pos s)"
    and "pos2id s' = dict_of_pairs (map (\<lambda>kv. (snd kv, fst kv)) (id2pos s'))"
    and "length (pos2id s') = length (id2pos s')"
    and "idx_length s' = idx_length s \<and> id2sims s' = id2sims s \<and> qindex s' = qindex s \<and>
         precompute s' = precompute s"
proof -
  from assms obtain s1 where s1: "delete_ids docids s = Returned s1"
    by (auto simp: delete_def split: outcome.splits)
  note eq = delete_ids_Returned [OF s1]
  let ?s2 = "s1\<lparr>pos2id := dict_of_pairs (map (\<lambda>kv. (snd kv, fst kv)) (id2pos s1))\<rparr>"
  from assms s1 have len: "length (pos2id ?s2) = length (id2pos ?s2)" and s': "s' = ?s2"
    by (auto simp: delete_def Let_def split: if_splits)
  show "id2pos s' = filter (\<lambda>kv. fst kv \<notin> set docids) (id2pos s)"
    using s' eq by simp
  show "pos2id s' = dict_of_pairs (map (\<lambda>kv. (snd kv, fst kv)) (id2pos s'))"
    using s' by simp
  show "length (pos2id s') = length (id2pos s')"
    using s' len by simp
  show "idx_length s' = idx_length s \<and> id2sims s' = id2sims s \<and> qindex s' = qindex s \<and>
         precompute s' = precompute s"
    using s' eq by simp
qed

lemma delete_Returned_inverse:
  assumes "distinct (map fst (id2pos s))" and "delete docids s = Returned s'"
  shows "inverse_maps s'"
    and "distinct (map fst (id2pos s'))" and "distinct (map fst (pos2id s'))"
    and "\<And>p d. map_of (pos2id s') p = Some d \<Longrightarrow> map_of (id2pos s) d = Some p"
proof -
  note r = delete_Returned [OF assms(2)]
  let ?ps = "map (\<lambda>kv. (snd kv, fst kv)) (id2pos s')"
  have len: "length (dict_of_pairs ?ps) = length ?ps" using r(2,3) by simp
  note full = dict_of_pairs_full [OF len]
  show d1: "distinct (map fst (id2pos s'))"
    using assms(1) r(1) by (simp add: distinct_map_filter)
  show "distinct (map fst (pos2id s'))"
    using r(2) by (simp add: dict_of_pairs_distinct)
  have fwd: "map_of (pos2id s') p = Some d" if "map_of (id2pos s') d = Some p" for d p
  proof -
    from that have "(d, p) \<in> set (id2pos s')" by (rule map_of_SomeD)
    then have "(p, d) \<in> set ?ps" by force
    then have "map_of ?ps p = Some d" using full(1) by simp
    then show ?thesis using r(2) full(2) by simp
  qed
  then show "inverse_maps s'" using r(3) by (simp add: inverse_maps_def)
  show "map_of (id2pos s) d = Some p" if "map_of (pos2id s') p = Some d" for p d
  proof -
    from that have "map_of ?ps p = Some d" using r(2) full(2) by simp
    then have "(p, d) \<in> set ?ps" by (rule map_of_SomeD)
    then have "(d, p) \<in> set (id2pos s')" by auto
    then have "(d, p) \<in> set (id2pos s)" using r(1) by simp
    then show ?thesis using assms(1) by simp
  qed
qed

lemma delete_Returned_idmap_inv:
  assumes "idmap_sub s" and "delete docids s = Returned s'"
  shows "idmap_inv s'"
proof -
  have d: "distinct (map fst (id2pos s))" using assms(1) by (simp add: idmap_sub_def)
  note i = delete_Returned_inverse [OF d assms(2)]
  note r = delete_Returned [OF assms(2)]
  have "p < idx_length s'" if "map_of (pos2id s') p = Some d" for p d
  proof -
    from i(4) [OF that] have "map_of (pos2id s) p = Some d"
      using assms(1) unfolding idmap_sub_def by blast
    then have "p < idx_length s" using assms(1) unfolding idmap_sub_def by blast
    then show ?thesis using r(4) by simp
  qed
  then show ?thesis
    using i(1,2,3) unfolding idmap_inv_def idmap_sub_def inverse_maps_def by blast
qed

lemma idmap_inv_init: "idmap_inv (init pre)"
  by (simp add: idmap_inv_def idmap_sub_def init_def)

lemma idmap_inv_inverse: "idmap_inv s \<Longrightarrow> inverse_maps s"
  by (simp add: idmap_inv_def idmap_sub_def inverse_maps_def)

lemma index_documents_idmap_inv:
  assumes "idmap_inv s" and "index_documents sm fresh_docs model s = Returned s'"
  shows "idmap_inv s'"
proof -
  have sub: "idmap_sub s" and len: "length (pos2id s) = length (id2pos s)"
    using assms(1) by (simp_all add: idmap_inv_def)
  from index_documents_outcome [OF sub, of sm fresh_docs model] assms(2)
  have "idmap_step (map fst fresh_docs) s s'" by auto
  then show ?thesis using len by (simp add: idmap_step_def idmap_inv_def)
qed

section \<open>Ranked lists: sims2scores and merge_sim\<close>

lemma live_None: "map_of p2i p = None \<Longrightarrow> live_pair p2i sims p = None"
  by (simp add: live_pair_def)

lemma live_Some: "map_of p2i p = Some d \<Longrightarrow> live_pair p2i sims p = Some (d, sims ! p)"
  by (simp add: live_pair_def)

lemmas live_Cons = List.map_filter_simps live_None live_Some

lemma live_set:
  "set (List.map_filter (live_pair p2i sims) ps) =
     {(d, sims ! p) | d p. p \<in> set ps \<and> map_of p2i p = Some d}"
proof (induction ps)
  case Nil
  then show ?case by (simp add: List.map_filter_simps)
next
  case (Cons p ps)
  then show ?case by (cases "map_of p2i p") (auto simp: live_Cons)
qed

lemma sims2scores_loop_eq:
  "length result < TOP_SIMS \<Longrightarrow>
     sims2scores_loop p2i sims ps result =
       take TOP_SIMS (result @ List.map_filter (live_pair p2i sims) ps)"
proof (induction ps arbitrary: result)
  case Nil
  then show ?case by (simp add: List.map_filter_simps)
next
  case (Cons pos rest)
  show ?case
  proof (cases "map_of p2i pos")
    case None
    then show ?thesis using Cons by (simp add: live_Cons)
  next
    case (Some docid)
    let ?r = "result @ [(docid, sims ! pos)]"
    let ?rest = "List.map_filter (live_pair p2i sims) rest"
    have mf: "result @ List.map_filter (live_pair p2i sims) (pos # rest) = ?r @ ?rest"
      using Some by (simp add: live_Cons)
    show ?thesis
    proof (cases "length ?r = TOP_SIMS")
      case True
      have "take (length ?r) (?r @ ?rest) = ?r" by simp
      then have "take TOP_SIMS (?r @ ?rest) = ?r" unfolding True .
      moreover have "sims2scores_loop p2i sims (pos # rest) result = ?r"
        using Some True by simp
      ultimately show ?thesis unfolding mf by simp
    next
      case False
      then have "length ?r < TOP_SIMS" using Cons.prems by simp
      from Cons.IH [OF this] have "sims2scores_loop p2i sims rest ?r = take TOP_SIMS (?r @ ?rest)" .
      moreover have "sims2scores_loop p2i sims (pos # rest) result = sims2scores_loop p2i sims rest ?r"
        using Some False by simp
      ultimately show ?thesis unfolding mf by simp
    qed
  qed
qed

lemma sims2scores_eq:
  "sims2scores s sims =
     take TOP_SIMS (List.map_filter (live_pair (pos2id s) (map abs sims))
                      (rev (argsort (map abs sims))))"
  using sims2scores_loop_eq [of "[]" "pos2id s" "map abs sims" "rev (argsort (map abs sims))"]
  by (simp add: sims2scores_def Let_def TOP_SIMS_def)

lemma sorted_desc_map_filter:
  "sorted_wrt (\<lambda>p q. sims ! q \<le> sims ! p) ps \<Longrightarrow>
     sorted_desc (List.map_filter (live_pair p2i sims) ps)"
proof (induction ps)
  case Nil
  then show ?case by (simp add: sorted_desc_def List.map_filter_simps)
next
  case (Cons p ps)
  then have IH: "sorted_desc (List.map_filter (live_pair p2i sims) ps)"
    and le: "\<forall>q\<in>set ps. sims ! q \<le> sims ! p" by simp_all
  have mem: "\<forall>y\<in>set (List.map_filter (live_pair p2i sims) ps). snd y \<le> sims ! p"
    using le by (auto simp: live_set)
  show ?case using IH mem
    by (cases "map_of p2i p") (auto simp: sorted_desc_def live_Cons)
qed

lemma argsort_sorted: "sorted_wrt (\<lambda>p q. sims ! q \<le> sims ! p) (rev (argsort sims))"
proof -
  have "sorted (map (\<lambda>pos. sims ! pos) (argsort sims))"
    by (simp add: argsort_def)
  then have "sorted_wrt (\<lambda>p q. sims ! p \<le> sims ! q) (argsort sims)"
    by (simp add: sorted_map)
  then show ?thesis by (simp add: sorted_wrt_rev)
qed

lemma argsort_distinct: "distinct (argsort sims)" and argsort_set: "set (argsort sims) = {0..<length sims}"
  by (simp_all add: argsort_def)

lemma sorted_desc_take: "sorted_desc xs \<Longrightarrow> sorted_desc (take n xs)"
  by (simp add: sorted_desc_def sorted_wrt_take)

lemma sims2scores_sorted: "sorted_desc (sims2scores s sims)"
  unfolding sims2scores_eq
  by (intro sorted_desc_take sorted_desc_map_filter argsort_sorted)

lemma sims2scores_length: "length (sims2scores s sims) \<le> TOP_SIMS"
  unfolding sims2scores_eq by simp

lemma sims2scores_member:
  assumes "(docid, score) \<in> set (sims2scores s sims)"
  shows "\<exists>pos < length sims. map_of (pos2id s) pos = Some docid \<and> score = \<bar>sims ! pos\<bar>"
proof -
  from assms have "(docid, score) \<in> set (List.map_filter (live_pair (pos2id s) (map abs sims))
                      (rev (argsort (map abs sims))))"
    unfolding sims2scores_eq by (rule in_set_takeD)
  then obtain pos where "pos \<in> set (argsort (map abs sims))"
      "map_of (pos2id s) pos = Some docid" "score = map abs sims ! pos"
    by (auto simp: live_set)
  then show ?thesis
    by (auto simp: argsort_set)
qed

lemma distinct_map_filter_ids:
  assumes "distinct ps" and "one_position p2i"
  shows "distinct (map fst (List.map_filter (live_pair p2i sims) ps))"
  using assms(1)
proof (induction ps)
  case Nil
  show ?case by (simp add: List.map_filter_simps)
next
  case (Cons p ps)
  let ?rest = "List.map_filter (live_pair p2i sims) ps"
  have IH: "distinct (map fst ?rest)" using Cons by simp
  show ?case
  proof (cases "map_of p2i p")
    case None
    then have "List.map_filter (live_pair p2i sims) (p # ps) = ?rest"
      by (simp add: List.map_filter_simps live_None)
    then show ?thesis using IH by simp
  next
    case (Some d)
    have eq: "List.map_filter (live_pair p2i sims) (p # ps) = (d, sims ! p) # ?rest"
      using Some by (simp add: List.map_filter_simps live_Some)
    have "d \<notin> fst ` set ?rest"
    proof
      assume "d \<in> fst ` set ?rest"
      then obtain x where "(d, x) \<in> set ?rest" by force
      then obtain q where q: "q \<in> set ps" "map_of p2i q = Some d"
        unfolding live_set by blast
      have "p = q" using assms(2) Some q(2) unfolding one_position_def by blast
      then show False using q(1) Cons.prems by simp
    qed
    then show ?thesis unfolding eq using IH by simp
  qed
qed

lemma sims2scores_distinct:
  assumes "one_position (pos2id s)"
  shows "distinct (map fst (sims2scores s sims))"
proof -
  have "distinct (rev (argsort (map abs sims)))" by (simp add: argsort_distinct)
  from distinct_map_filter_ids [OF this assms]
  have "distinct (take TOP_SIMS (map fst (List.map_filter (live_pair (pos2id s) (map abs sims))
                      (rev (argsort (map abs sims))))))"
    by (rule distinct_take)
  then show ?thesis unfolding sims2scores_eq by (simp only: take_map)
qed

lemma merge_sim_sorted: "sorted_desc (merge_sim oldsims newsims)"
proof -
  have "sorted (map (\<lambda>item. - snd item) (sort_key (\<lambda>item. - snd item) (oldsims @ newsims)))"
    by simp
  then have "sorted_desc (sort_key (\<lambda>item. - snd item) (oldsims @ newsims))"
    by (simp add: sorted_map sorted_desc_def)
  then show ?thesis unfolding merge_sim_def by (rule sorted_desc_take)
qed

lemma merge_sim_length: "length (merge_sim oldsims newsims) \<le> TOP_SIMS"
  by (simp add: merge_sim_def)

subsection \<open>The stored entries stay ranked\<close>

lemma cache_ranked_update:
  assumes "cache_ranked s" and "length entry \<le> TOP_SIMS" and "sorted_desc entry"
  shows "cache_ranked (s\<lparr>id2sims := AList.update d entry (id2sims s)\<rparr>)"
  using assms by (simp add: cache_ranked_def AList.update_conv')

lemma cache_ranked_cong: "id2sims s' = id2sims s \<Longrightarrow> cache_ranked s' = cache_ranked s"
  by (simp add: cache_ranked_def)

lemma update_old_ranked:
  "cache_ranked s \<Longrightarrow> cache_ranked (state_of (update_old sm tmpindex chunk pos s))"
proof (induction chunk arbitrary: pos s)
  case Nil
  then show ?case by simp
next
  case (Cons vec chunk)
  show ?case
  proof (cases "map_of (pos2id s) pos")
    case None
    then show ?thesis using Cons.prems by simp
  next
    case (Some docid)
    note pos = Some
    show ?thesis
    proof (cases "map_of (id2sims s) docid")
      case None
      then show ?thesis using pos Cons.prems by (simp add: Let_def)
    next
      case (Some oldsims)
      let ?e = "merge_sim oldsims (sims2scores s (query_index sm False tmpindex vec))"
      let ?s1 = "s\<lparr>id2sims := AList.update docid ?e (id2sims s)\<rparr>"
      have "cache_ranked ?s1"
        using Cons.prems merge_sim_length merge_sim_sorted by (rule cache_ranked_update)
      then have "cache_ranked (state_of (update_old sm tmpindex chunk (Suc pos) ?s1))"
        by (rule Cons.IH)
      moreover have "update_old sm tmpindex (vec # chunk) pos s =
                     update_old sm tmpindex chunk (Suc pos) ?s1"
        using pos Some by (simp add: Let_def)
      ultimately show ?thesis by simp
    qed
  qed
qed

lemma precompute_new_ranked:
  "cache_ranked s \<Longrightarrow> cache_ranked (precompute_new sm store rows s)"
proof (induction rows arbitrary: s)
  case Nil
  then show ?case by simp
next
  case (Cons row rows)
  obtain docid vec where row: "row = (docid, vec)" by (cases row)
  let ?s1 = "s\<lparr>id2sims := AList.update docid
                 (sims2scores s (query_index sm False store vec)) (id2sims s)\<rparr>"
  have "cache_ranked ?s1"
    using Cons.prems sims2scores_length sims2scores_sorted by (rule cache_ranked_update)
  then have "cache_ranked (precompute_new sm store rows ?s1)" by (rule Cons.IH)
  then show ?case using row by simp
qed

lemma updateids_step_id2sims: "id2sims (state_of (updateids_step docid s)) = id2sims s"
  by (simp add: updateids_step_def split: option.splits sum.splits)

lemma updateids_id2sims: "id2sims (state_of (updateids docids s)) = id2sims s"
proof (induction docids arbitrary: s)
  case Nil
  then show ?case by simp
next
  case (Cons docid rest)
  show ?case
  proof (cases "updateids_step docid s")
    case (Returned s1)
    then have "id2sims s1 = id2sims s" using updateids_step_id2sims [of docid s] by simp
    then show ?thesis using Returned Cons.IH [of s1] by simp
  next
    case (Raised e s1)
    then have "id2sims s1 = id2sims s" using updateids_step_id2sims [of docid s] by simp
    then show ?thesis using Raised by simp
  qed
qed

lemma delete_ids_id2sims: "id2sims (state_of (delete_ids docids s)) = id2sims s"
proof (induction docids arbitrary: s)
  case Nil
  then show ?case by simp
next
  case (Cons d rest)
  show ?case
  proof (cases "map_of (id2pos s) d")
    case None
    then show ?thesis by (simp add: dict_delitem_def)
  next
    case (Some v)
    then show ?thesis
      using Cons.IH [of "s\<lparr>id2pos := AList.delete d (id2pos s)\<rparr>"]
      by (simp add: dict_delitem_def)
  qed
qed

lemma delete_id2sims: "id2sims (state_of (delete docids s)) = id2sims s"
proof (cases "delete_ids docids s")
  case (Returned s1)
  then have "id2sims s1 = id2sims s" using delete_ids_id2sims [of docids s] by simp
  then show ?thesis using Returned by (simp add: delete_def Let_def)
next
  case (Raised e s1)
  then have "id2sims s1 = id2sims s" using delete_ids_id2sims [of docids s] by simp
  then show ?thesis using Raised by (simp add: delete_def)
qed

lemma delete_ranked: "cache_ranked s \<Longrightarrow> cache_ranked (state_of (delete docids s))"
  using delete_id2sims [of docids s] by (simp add: cache_ranked_def)

lemma index_documents_ranked:
  assumes "cache_ranked s"
  shows "cache_ranked (state_of (index_documents sm fresh_docs model s))"
proof -
  let ?sq = "case qindex s of None \<Rightarrow> s\<lparr>qindex := Some []\<rparr> | Some q \<Rightarrow> s"
  let ?store = "case qindex s of None \<Rightarrow> [] | Some q \<Rightarrow> q"
  let ?docids = "map fst fresh_docs"
  let ?vectors = "docs2vecs model (map snd fresh_docs)"
  have sq: "cache_ranked ?sq" "precompute ?sq = precompute s"
    using assms by (simp_all add: cache_ranked_def split: option.splits)
  show ?thesis
  proof (cases "precompute s")
    case False
    let ?sa = "?sq\<lparr>qindex := Some (add_documents sm ?store ?vectors)\<rparr>"
    have "cache_ranked ?sa" using sq(1) by (simp add: cache_ranked_def)
    then have "cache_ranked (state_of (updateids ?docids ?sa))"
      using updateids_id2sims [of ?docids ?sa] by (simp add: cache_ranked_def)
    then show ?thesis using False sq(2) by (simp add: index_documents_def Let_def)
  next
    case True
    let ?tmp = "add_documents sm [] ?vectors"
    let ?r = "update_old sm ?tmp ?store 0 ?sq"
    have r: "cache_ranked (state_of ?r)" using sq(1) by (rule update_old_ranked)
    show ?thesis
    proof (cases ?r)
      case (Raised e s1)
      then show ?thesis using r True sq(2) by (simp add: index_documents_def Let_def)
    next
      case (Returned s1)
      let ?store' = "add_documents sm ?store ?tmp"
      let ?sc = "s1\<lparr>qindex := Some ?store'\<rparr>"
      have "cache_ranked ?sc" using r Returned by (simp add: cache_ranked_def)
      then have u: "cache_ranked (state_of (updateids ?docids ?sc))"
        using updateids_id2sims [of ?docids ?sc] by (simp add: cache_ranked_def)
      show ?thesis
      proof (cases "updateids ?docids ?sc")
        case (Raised e s2)
        then show ?thesis using u True sq(2) Returned
          by (simp add: index_documents_def Let_def)
      next
        case (Returned s2)
        then have "cache_ranked (precompute_new sm ?store' (zip ?docids ?tmp) s2)"
          using u by (simp add: precompute_new_ranked)
        then show ?thesis using True sq(2) \<open>?r = Returned s1\<close> Returned
          by (simp add: index_documents_def Let_def)
      qed
    qed
  qed
qed

lemma cache_ranked_init: "cache_ranked (init pre)"
  by (simp add: cache_ranked_def init_def)

subsection \<open>The example index\<close>

lemma run_index_ab:
  "index_documents unit_similarity batch_ab vec_model (init True) = Returned index_ab"
  by code_simp

lemma run_delete_a: "delete [''a''] index_ab = Returned index_ab_less_a"
  by code_simp


lemma idmap_inv_index_ab: "idmap_inv index_ab"
  using idmap_inv_init run_index_ab by (rule index_documents_idmap_inv)

lemma idmap_inv_index_ab_less_a: "idmap_inv index_ab_less_a"
proof -
  have "idmap_sub index_ab" using idmap_inv_index_ab by (simp add: idmap_inv_def)
  then show ?thesis using run_delete_a by (rule delete_Returned_idmap_inv)
qed


subsection \<open>The inverse-mapping invariant\<close>



subsection \<open>A delete that fails\<close>

text \<open>
  Claim C10. When the ids before \<open>missing\<close> are mapped and \<open>missing\<close> is not,
  \<open>delete\<close> raises KeyError; the state it leaves has the earlier ids removed from
  \<open>id2pos\<close> and \<open>pos2id\<close> as it was, so that the two directions, if they were
  inverses before and an id was removed, are no longer.
\<close>

theorem delete_missing_id:
  assumes "distinct pre" and "set pre \<subseteq> fst ` set (id2pos s)"
    and "missing \<notin> fst ` set (id2pos s)"
  shows "\<exists>s'. delete (pre @ missing # post) s = Raised KeyError s' \<and>
              s' = s\<lparr>id2pos := filter (\<lambda>kv. fst kv \<notin> set pre) (id2pos s)\<rparr> \<and>
              (\<forall>d\<in>set pre. map_of (id2pos s') d = None) \<and>
              (\<forall>d. d \<notin> set pre \<longrightarrow> map_of (id2pos s') d = map_of (id2pos s) d) \<and>
              pos2id s' = pos2id s \<and>
              (pre \<noteq> [] \<and> inverse_maps s \<longrightarrow> \<not> inverse_maps s')"
proof -
  let ?s' = "s\<lparr>id2pos := filter (\<lambda>kv. fst kv \<notin> set pre) (id2pos s)\<rparr>"
  have run: "delete (pre @ missing # post) s = Raised KeyError ?s'"
    using delete_ids_missing [OF assms] by (simp add: delete_def)
  have gone: "\<forall>d\<in>set pre. map_of (id2pos ?s') d = None"
    by (simp add: map_of_filter_keys)
  have kept: "\<forall>d. d \<notin> set pre \<longrightarrow> map_of (id2pos ?s') d = map_of (id2pos s) d"
    by (simp add: map_of_filter_keys)
  have sync: "\<not> inverse_maps ?s'" if "pre \<noteq> []" "inverse_maps s"
  proof -
    from that(1) obtain d where d: "d \<in> set pre" by (cases pre) auto
    then have "d \<in> fst ` set (id2pos s)" using assms(2) by blast
    then obtain kv where "kv \<in> set (id2pos s)" "fst kv \<in> set pre" using d by auto
    then have "length (filter (\<lambda>kv. fst kv \<notin> set pre) (id2pos s)) < length (id2pos s)"
      by (intro length_filter_less [of kv]) auto
    moreover have "length (pos2id s) = length (id2pos s)"
      using that(2) by (simp add: inverse_maps_def)
    ultimately show ?thesis by (simp add: inverse_maps_def)
  qed
  show ?thesis using run gone kept sync by (intro exI [of _ ?s']) simp
qed

theorem delete_missing_id_witness:
  "delete [''a'', ''zz''] index_ab = Raised KeyError (index_ab\<lparr>id2pos := [(''b'', 1)]\<rparr>) \<and>
   map_of (id2pos (index_ab\<lparr>id2pos := [(''b'', 1)]\<rparr>)) ''a'' = None \<and>
   pos2id (index_ab\<lparr>id2pos := [(''b'', 1)]\<rparr>) = pos2id index_ab \<and>
   inverse_maps index_ab \<and> \<not> inverse_maps (index_ab\<lparr>id2pos := [(''b'', 1)]\<rparr>)"
proof -
  have h1: "distinct [''a'']" by simp
  have h2: "set [''a''] \<subseteq> fst ` set (id2pos index_ab)" by (simp add: index_ab_def)
  have h3: "''zz'' \<notin> fst ` set (id2pos index_ab)" by (simp add: index_ab_def)
  have f: "filter (\<lambda>kv. fst kv \<notin> set [''a'']) (id2pos index_ab) = [(''b'', 1)]"
    by (simp add: index_ab_def)
  have inv: "inverse_maps index_ab" using idmap_inv_index_ab by (rule idmap_inv_inverse)
  from delete_missing_id [OF h1 h2 h3, of "[]"] inv show ?thesis
    unfolding f by auto
qed

subsection \<open>Indexing an id again\<close>





subsection \<open>What a ranked list satisfies\<close>

text \<open>
  Claim C5, as stated, fails on the code. Two indexed documents with the same vector score
  the same against a query, so the list \<^verbatim>\<open>sims2scores\<close> returns for that query is not
  strictly descending; the entry stored for \<open>a\<close> when \<open>a\<close> and \<open>b\<close> are indexed
  holds \<open>a\<close> itself; and after \<open>a\<close> is deleted the entry stored for \<open>b\<close> still
  holds \<open>a\<close>.
\<close>

theorem ranked_lists_counterexample:
  "\<not> strictly_desc (sims2scores index_twins (query_index unit_similarity True [[1, 0], [1, 0]] [1, 0])) \<and>
   map_of (id2sims (state_of (index_documents unit_similarity batch_ab vec_model (init True)))) ''a''
     = Some [(''a'', 1), (''b'', 3 / 5)] \<and>
   map_of (id2sims (state_of (delete [''a''] index_ab))) ''b'' = Some [(''b'', 1), (''a'', 3 / 5)] \<and>
   map_of (id2pos (state_of (delete [''a''] index_ab))) ''a'' = None"
proof -
  have "sims2scores index_twins (query_index unit_similarity True [[1, 0], [1, 0]] [1, 0])
          = [(''b'', 1), (''a'', 1)]"
    by code_simp
  then have 1: "\<not> strictly_desc
      (sims2scores index_twins (query_index unit_similarity True [[1, 0], [1, 0]] [1, 0]))"
    by (simp add: strictly_desc_def)
  have 2: "map_of (id2sims (state_of (index_documents unit_similarity batch_ab vec_model (init True)))) ''a''
     = Some [(''a'', 1), (''b'', 3 / 5)]"
    unfolding run_index_ab state_of.simps by (simp add: index_ab_def)
  have 3: "map_of (id2sims (state_of (delete [''a''] index_ab))) ''b'' = Some [(''b'', 1), (''a'', 3 / 5)]"
    "map_of (id2pos (state_of (delete [''a''] index_ab))) ''a'' = None"
    unfolding run_delete_a state_of.simps
    by (simp_all add: index_ab_less_a_def index_ab_def)
  show ?thesis using 1 2 3 by blast
qed

text \<open>
  Claim C5, amended. Every list \<^verbatim>\<open>sims2scores\<close> returns has at most \<open>TOP_SIMS = 100\<close>
  pairs, is sorted by descending score (equal scores may follow each other), names only ids
  that \<open>pos2id\<close> maps a position to at the time of the call, each paired with the
  magnitude of that position's score, and names no id twice when no id has two positions.
  Every list \<^verbatim>\<open>merge_sim\<close> returns has at most \<open>TOP_SIMS\<close> pairs and is sorted by
  descending score, and so is every stored entry of the index after \<open>index_documents\<close> and
  after \<open>delete\<close>, whether the call returned or raised, when it was so before; the empty
  index has no entry.
\<close>

theorem ranked_lists:
  "length (sims2scores s sims) \<le> TOP_SIMS \<and> TOP_SIMS = 100 \<and>
   sorted_desc (sims2scores s sims) \<and>
   (\<forall>docid score. (docid, score) \<in> set (sims2scores s sims) \<longrightarrow>
      (\<exists>pos < length sims. map_of (pos2id s) pos = Some docid \<and> score = \<bar>sims ! pos\<bar>)) \<and>
   (one_position (pos2id s) \<longrightarrow> distinct (map fst (sims2scores s sims))) \<and>
   length (merge_sim oldsims newsims) \<le> TOP_SIMS \<and>
   sorted_desc (merge_sim oldsims newsims) \<and>
   cache_ranked (init pre :: ('id, 'v) simindex) \<and>
   (cache_ranked s \<longrightarrow>
      cache_ranked (state_of (index_documents sm fresh_docs model s)) \<and>
      cache_ranked (state_of (delete docids s)))"
  using sims2scores_length [of s sims] sims2scores_sorted [of s sims]
    sims2scores_member [of _ _ s sims] sims2scores_distinct [of s sims]
    merge_sim_length [of oldsims newsims] merge_sim_sorted [of oldsims newsims]
    cache_ranked_init [of pre] index_documents_ranked [of s sm fresh_docs model]
    delete_ranked [of s docids]
  by (auto simp: TOP_SIMS_def)

lemma one_position_index_ab: "one_position (pos2id index_ab)"
  by (auto simp: one_position_def index_ab_def split: if_splits)

lemma cache_ranked_index_ab: "cache_ranked index_ab"
  using index_documents_ranked [OF cache_ranked_init, of unit_similarity batch_ab vec_model True]
  by (simp add: run_index_ab)

theorem ranked_lists_witness:
  "sims2scores index_ab [3 / 5, - 1] = [(''b'', 1), (''a'', 3 / 5)] \<and>
   one_position (pos2id index_ab) \<and> distinct (map fst (sims2scores index_ab [3 / 5, - 1])) \<and>
   sorted_desc (sims2scores index_ab [3 / 5, - 1]) \<and>
   cache_ranked index_ab \<and>
   cache_ranked (state_of (index_documents unit_similarity [(''c'', [0, 1])] vec_model index_ab)) \<and>
   cache_ranked (state_of (delete [''a''] index_ab))"
proof -
  have e: "sims2scores index_ab [3 / 5, - 1] = [(''b'', 1), (''a'', 3 / 5)]"
    by code_simp
  from ranked_lists [of index_ab "[3 / 5, - 1]" "[]" "[]" True unit_similarity
      "[(''c'', [0, 1])]" vec_model "[''a'']"]
    one_position_index_ab cache_ranked_index_ab e
  show ?thesis by blast
qed

subsection \<open>find_similar\<close>

lemma find_similar_loop_eq:
  "find_similar_loop m k sims result =
     result @ (if k \<le> 0 then takeWhile (\<lambda>item. m \<le> snd item) sims
               else take (nat k - length result) (takeWhile (\<lambda>item. m \<le> snd item) sims))"
proof (induction sims arbitrary: result)
  case Nil
  then show ?case by simp
next
  case (Cons x sims)
  obtain docid score where x: "x = (docid, score)" by (cases x)
  show ?case
  proof (cases "score < m")
    case True
    then show ?thesis using x by simp
  next
    case False
    note keep = False
    show ?thesis
    proof (cases "0 < k \<and> k \<le> int (length result)")
      case True
      then have "nat k - length result = 0" by linarith
      then show ?thesis using True x keep by simp
    next
      case False
      have step: "find_similar_loop m k (x # sims) result =
                  find_similar_loop m k sims (result @ [x])"
        using False keep x by auto
      show ?thesis
      proof (cases "k \<le> 0")
        case True
        then show ?thesis unfolding step Cons.IH using keep x by simp
      next
        case False
        then have "length result < nat k" using \<open>\<not> (0 < k \<and> k \<le> int (length result))\<close> by linarith
        then have "nat k - length result = Suc (nat k - Suc (length result))" by simp
        then show ?thesis unfolding step Cons.IH using False keep x by simp
      qed
    qed
  qed
qed

lemma takeWhile_sorted_desc:
  "sorted_desc sims \<Longrightarrow>
     takeWhile (\<lambda>item. m \<le> snd item) sims = filter (\<lambda>item. m \<le> snd item) sims"
proof (induction sims)
  case Nil
  then show ?case by simp
next
  case (Cons x sims)
  then have le: "\<forall>y\<in>set sims. snd y \<le> snd x" and s: "sorted_desc sims"
    by (simp_all add: sorted_desc_def)
  show ?case
  proof (cases "m \<le> snd x")
    case True
    then show ?thesis using Cons.IH [OF s] by simp
  next
    case False
    then have "\<forall>y\<in>set sims. \<not> m \<le> snd y" using le by fastforce
    then have "filter (\<lambda>item. m \<le> snd item) sims = []" by (simp add: filter_empty_conv)
    then show ?thesis using False by simp
  qed
qed

lemma find_similar_loop_sorted:
  "sorted_desc sims \<Longrightarrow> find_similar_loop m k sims [] = restrict_results m k sims"
  by (simp add: find_similar_loop_eq takeWhile_sorted_desc restrict_results_def Let_def)

lemma restrict_results_sorted: "sorted_desc sims \<Longrightarrow> sorted_desc (restrict_results m k sims)"
  by (simp add: restrict_results_def Let_def sorted_desc_def sorted_wrt_filter sorted_wrt_take)

lemma underlying_sorted:
  assumes "cache_ranked idx" and "underlying sm idx model doc = Inr sims"
  shows "sorted_desc sims"
proof (cases doc)
  case (DocId docid)
  show ?thesis
  proof (cases "precompute idx")
    case True
    then have "map_of (id2sims idx) docid = Some sims"
      using assms(2) DocId
      by (auto simp: underlying_def sims_by_id_def dict_getitem_def split: option.splits)
    then show ?thesis using assms(1) by (simp add: cache_ranked_def)
  next
    case False
    then obtain raw where "sims = sims2scores idx raw"
      using assms(2) DocId
      by (auto simp: underlying_def sims_by_id_def split: option.splits sum.splits)
    then show ?thesis by (simp add: sims2scores_sorted)
  qed
next
  case (Doc d)
  then obtain raw where "sims = sims2scores idx raw"
    using assms(2)
    by (auto simp: underlying_def sims_by_doc_def Let_def split: option.splits)
  then show ?thesis by (simp add: sims2scores_sorted)
qed

lemma find_similar_unfold:
  "simindex srv = Some idx \<Longrightarrow>
     find_similar sm srv doc m k =
       (case underlying sm idx (simmodel srv) doc of
          Inl e \<Rightarrow> Inl e
        | Inr sims \<Rightarrow> Inr (find_similar_loop m k sims []))"
  by (simp add: find_similar_def underlying_def)

text \<open>
  Claim C8. On a server whose index has its stored entries ranked (as they are after any
  sequence of calls from the empty index), \<open>find_similar\<close> fails as the underlying query
  does, and otherwise returns the underlying list restricted to the pairs of score at least
  \<open>min_score\<close> and cut to \<open>max_results\<close> pairs, uncut when \<open>max_results \<le> 0\<close>; the
  result is sorted by descending score.
\<close>

theorem find_similar_restricts:
  assumes "simindex srv = Some idx" and "cache_ranked idx"
  shows "find_similar sm srv doc min_score max_results =
           (case underlying sm idx (simmodel srv) doc of
              Inl e \<Rightarrow> Inl e
            | Inr sims \<Rightarrow> Inr (restrict_results min_score max_results sims)) \<and>
         (\<forall>res. find_similar sm srv doc min_score max_results = Inr res \<longrightarrow>
            sorted_desc res \<and> (0 < max_results \<longrightarrow> int (length res) \<le> max_results) \<and>
            (\<forall>item\<in>set res. min_score \<le> snd item))"
proof (cases "underlying sm idx (simmodel srv) doc")
  case (Inl e)
  then show ?thesis using assms(1) by (simp add: find_similar_unfold)
next
  case (Inr sims)
  then have s: "sorted_desc sims" using assms(2) by (auto intro: underlying_sorted)
  have eq: "find_similar sm srv doc min_score max_results =
              Inr (restrict_results min_score max_results sims)"
    using assms(1) Inr s by (simp add: find_similar_unfold find_similar_loop_sorted)
  have "sorted_desc (restrict_results min_score max_results sims)"
    using s by (rule restrict_results_sorted)
  moreover have "0 < max_results \<longrightarrow>
      int (length (restrict_results min_score max_results sims)) \<le> max_results"
    by (auto simp: restrict_results_def Let_def)
  moreover have "\<forall>item\<in>set (restrict_results min_score max_results sims). min_score \<le> snd item"
    by (auto simp: restrict_results_def Let_def dest: in_set_takeD)
  ultimately show ?thesis using eq Inr by simp
qed

theorem find_similar_restricts_witness:
  "cache_ranked index_ab \<and>
   find_similar unit_similarity \<lparr>simindex = Some index_ab, simmodel = Some vec_model\<rparr>
     (DocId ''a'') (1 / 2) 100 = Inr [(''a'', 1), (''b'', 3 / 5)] \<and>
   find_similar unit_similarity \<lparr>simindex = Some index_ab, simmodel = Some vec_model\<rparr>
     (DocId ''a'') (4 / 5) 0 = Inr [(''a'', 1)] \<and>
   find_similar unit_similarity \<lparr>simindex = Some index_ab, simmodel = Some vec_model\<rparr>
     (Doc [0, 1]) 0 1 = Inr [(''b'', 4 / 5)] \<and>
   find_similar unit_similarity \<lparr>simindex = Some index_ab, simmodel = Some vec_model\<rparr>
     (DocId ''zz'') 0 100 = Inl KeyError"
proof -
  let ?srv = "\<lparr>simindex = Some index_ab, simmodel = Some vec_model\<rparr>"
  have h: "simindex ?srv = Some index_ab" by simp
  note t = find_similar_restricts [OF h cache_ranked_index_ab, of unit_similarity]
  have u1: "underlying unit_similarity index_ab (simmodel ?srv) (DocId ''a'')
              = Inr [(''a'', 1), (''b'', 3 / 5)]"
    by code_simp
  have u2: "underlying unit_similarity index_ab (simmodel ?srv) (Doc [0, 1])
              = Inr [(''b'', 4 / 5), (''a'', 0)]"
    by code_simp
  have u3: "underlying unit_similarity index_ab (simmodel ?srv) (DocId ''zz'') = Inl KeyError"
    by code_simp
  have r1: "restrict_results (1 / 2) 100 [(''a'', 1), (''b'', 3 / 5 :: real)]
              = [(''a'', 1), (''b'', 3 / 5)]"
    "restrict_results (4 / 5) 0 [(''a'', 1), (''b'', 3 / 5 :: real)] = [(''a'', 1)]"
    "restrict_results 0 1 [(''b'', 4 / 5), (''a'', 0 :: real)] = [(''b'', 4 / 5)]"
    by (simp_all add: restrict_results_def)
  show ?thesis
    using t [of "DocId ''a''" "1 / 2" 100] t [of "DocId ''a''" "4 / 5" 0]
      t [of "Doc [0, 1]" 0 1] t [of "DocId ''zz''" 0 100] cache_ranked_index_ab
    unfolding u1 u2 u3 by (simp add: r1)
qed

subsection \<open>One document in a fresh index\<close>





section \<open>Where the code and the specification part\<close>

subsection \<open>Deleted peers in the answers\<close>

lemma sims_by_id_live_without_precompute:
  assumes "\<not> precompute s" and "sims_by_id sm s docid = Inr sims"
    and "(peer, score) \<in> set sims"
  shows "\<exists>pos. map_of (pos2id s) pos = Some peer"
proof -
  from assms(1,2) obtain raw where "sims = sims2scores s raw"
    by (auto simp: sims_by_id_def split: option.splits sum.splits)
  then show ?thesis using assms(3) sims2scores_member [of peer score s raw] by blast
qed

lemma deleted_peer_hidden_without_precompute:
  assumes "distinct (map fst (id2pos s))" and "delete docids s = Returned s'"
    and "a \<in> set docids" and "\<not> precompute s"
    and "sims_by_id sm s' b = Inr sims"
  shows "a \<notin> fst ` set sims"
proof
  assume "a \<in> fst ` set sims"
  then obtain score where m: "(a, score) \<in> set sims" by force
  have "\<not> precompute s'" using delete_Returned(4) [OF assms(2)] assms(4) by simp
  from sims_by_id_live_without_precompute [OF this assms(5) m]
  obtain pos where "map_of (pos2id s') pos = Some a" by blast
  then have p: "map_of (pos2id s') pos = Some a" .
  let ?ps = "map (\<lambda>kv. (snd kv, fst kv)) (id2pos s')"
  have len: "length (dict_of_pairs ?ps) = length ?ps"
    using delete_Returned(2,3) [OF assms(2)] by simp
  have "map_of ?ps pos = Some a"
    using p delete_Returned(2) [OF assms(2)] dict_of_pairs_full(2) [OF len] by simp
  then have "(pos, a) \<in> set ?ps" by (rule map_of_SomeD)
  then have "(a, pos) \<in> set (id2pos s')" by auto
  then have "(a, pos) \<in> set (filter (\<lambda>kv. fst kv \<notin> set docids) (id2pos s))"
    using delete_Returned(1) [OF assms(2)] by simp
  then show False using assms(3) by simp
qed


text \<open>
  Claim C1 against the code. With precomputation, \<open>a\<close> and \<open>b\<close> are indexed and
  \<open>a\<close> is deleted; the query for \<open>b\<close> by id answers from the stored entry and
  returns \<open>a\<close>, which is no longer mapped. (Without precomputation the answer goes
  through \<^verbatim>\<open>sims2scores\<close> and never names a deleted id, as
  \<open>deleted_peer_hidden_without_precompute\<close> shows.)
\<close>

theorem sims_by_id_returns_deleted_peer:
  "index_documents unit_similarity batch_ab vec_model (init True) = Returned index_ab \<and>
   delete [''a''] index_ab = Returned index_ab_less_a \<and>
   map_of (id2pos index_ab_less_a) ''a'' = None \<and>
   sims_by_id unit_similarity index_ab_less_a ''b'' = Inr [(''b'', 1), (''a'', 3 / 5)]"
proof -
  have "map_of (id2pos index_ab_less_a) ''a'' = None"
    by (simp add: index_ab_less_a_def)
  moreover have "sims_by_id unit_similarity index_ab_less_a ''b'' = Inr [(''b'', 1), (''a'', 3 / 5)]"
    by code_simp
  ultimately show ?thesis using run_index_ab run_delete_a by simp
qed

subsection \<open>Ghost slots in the update of the old documents\<close>

text \<open>
  Claim C2 against the code. After \<open>a\<close> and \<open>b\<close> are indexed and \<open>a\<close> is deleted,
  position 0 is a ghost slot; indexing \<open>c\<close> then raises KeyError at
  \<^verbatim>\<open>self.pos2id[pos]\<close> in the first round of the update of the old documents, and \<open>c\<close>
  is not indexed.
\<close>

theorem ghost_slot_raises:
  "delete [''a''] index_ab = Returned index_ab_less_a \<and>
   map_of (pos2id index_ab_less_a) 0 = None \<and>
   index_documents unit_similarity [(''c'', [0, 1])] vec_model index_ab_less_a =
     Raised KeyError index_ab_less_a"
proof -
  have "map_of (pos2id index_ab_less_a) 0 = None"
    by (simp add: index_ab_less_a_def)
  moreover have "index_documents unit_similarity [(''c'', [0, 1])] vec_model index_ab_less_a =
     Raised KeyError index_ab_less_a"
    by code_simp
  ultimately show ?thesis using run_delete_a by simp
qed

subsection \<open>The merge into the entries of the old documents\<close>

text \<open>
  Claim C4 against the code. The index holds \<open>a\<close>; \<open>b\<close>, whose score against \<open>a\<close> is
  3/5, is indexed. The entry of \<open>a\<close> has one pair, so \<open>b\<close> ranks in the top
  \<open>TOP_SIMS\<close>; but the new pair is translated through \<open>pos2id\<close> of the permanent
  index at position 0 of the temporary index, which is \<open>a\<close>: the entry of \<open>a\<close> becomes
  \<open>a\<close> twice and \<open>b\<close> does not enter it.
\<close>

theorem new_document_misses_old_entry:
  "index_documents unit_similarity [(''a'', [1, 0])] vec_model (init True) = Returned index_a \<and>
   map_of (id2sims index_a) ''a'' = Some [(''a'', 1)] \<and>
   map_of (id2sims (state_of
       (index_documents unit_similarity [(''b'', [3 / 5, 4 / 5])] vec_model index_a))) ''a'' =
     Some [(''a'', 1), (''a'', 3 / 5)] \<and>
   map_of (id2sims (state_of
       (index_documents unit_similarity [(''b'', [3 / 5, 4 / 5])] vec_model index_a))) ''b'' =
     Some [(''b'', 1), (''a'', 3 / 5)]"
proof -
  have 1: "index_documents unit_similarity [(''a'', [1, 0])] vec_model (init True) = Returned index_a"
    by code_simp
  have 2: "map_of (id2sims index_a) ''a'' = Some [(''a'', 1)]"
    by (simp add: index_a_def)
  have 3: "index_documents unit_similarity [(''b'', [3 / 5, 4 / 5])] vec_model index_a =
      Returned \<lparr>id2pos = [(''a'', 0), (''b'', 1)], pos2id = [(0, ''a''), (1, ''b'')],
        id2sims = [(''a'', [(''a'', 1), (''a'', 3 / 5)]), (''b'', [(''b'', 1), (''a'', 3 / 5)])],
        precompute = True, idx_length = 2, qindex = Some [[1, 0], [3 / 5, 4 / 5]]\<rparr>"
    by code_simp
  show ?thesis unfolding 3 using 1 2 by simp
qed

subsection \<open>A failed index_documents\<close>




end
